theory Spec2Isabelle
  imports Complex_Main
begin

section \<open>The rate service of the exchange bot: data model\<close>

text \<open>
  The development embeds \<^verbatim>\<open>src/bot/rates/service.py\<close> (class \<^verbatim>\<open>RateService\<close>) and the
  snapshot records of \<^verbatim>\<open>src/bot/rates/providers.py\<close>.

  Modelling decisions, each visible in the definitions below:
  \<^item> A Python \<^verbatim>\<open>float\<close> rate is a value of a type \<open>'r\<close>. The definitions only use
    \<open>1\<close>, \<open>0\<close>, \<open>*\<close> and \<open>/\<close> on it, so they read as the code does for any arithmetic.
    Theorems that compute with rates fix \<open>'r\<close> to a field (or to \<open>real\<close>): they speak
    about exact arithmetic, and the rounding of IEEE doubles is not modelled.
  \<^item> \<^verbatim>\<open>1.0 / x\<close> raises \<^verbatim>\<open>ZeroDivisionError\<close> when \<^verbatim>\<open>x == 0\<close>; this is a branch
    of \<open>fdiv\<close>.
  \<^item> A \<^verbatim>\<open>datetime\<close> is an \<open>int\<close> (an instant on the UTC time line), a
    \<^verbatim>\<open>timedelta\<close> an \<open>int\<close> in the same unit.
  \<^item> The provider fetches are network input/output. Their outcome (a snapshot or a
    raised exception) is an input of the model, the record \<open>upstream\<close>; every call
    of a fetcher is recorded in a trace of \<open>provider\<close> names, which the model returns.
  \<^item> An exception is an \<open>Inl\<close> value; the service state is passed explicitly, and the
    state returned with an error is the state the exception leaves behind.
\<close>

datatype error =
    ProviderError string  \<comment> \<open>whatever a fetcher raises: transport, status, parse\<close>
  | ZeroDivisionError
  | RuntimeError string
  | KeyError string

datatype provider = CBR | NBU | Binance

record 'r CbrRates =
  eur_rub :: 'r
  usd_rub :: 'r
  cbr_as_of :: int

record 'r NbuRates =
  eur_uah :: 'r
  usd_uah :: 'r
  nbu_as_of :: int

record 'r BinanceRates =
  eur_usdt :: 'r
  usdt_uah :: 'r
  usdt_usd :: 'r
  bnc_as_of :: int

text \<open>\<^verbatim>\<open>RateResult\<close>: the rate, the path as (from, to, source) hops, the as-of instant.\<close>

type_synonym hop = "string \<times> string \<times> string"

record 'r RateResult =
  rate :: 'r
  path :: "hop list"
  as_of :: int

text \<open>
  \<^verbatim>\<open>RateService\<close>: \<^verbatim>\<open>self.ttl\<close>, \<^verbatim>\<open>self._cache\<close> (key to (expiry, result)) and
  \<^verbatim>\<open>self._last_sources_as_of\<close> (\<^verbatim>\<open>None\<close> until the first successful fetch of all
  three providers).
\<close>

record 'r RateService =
  ttl :: int
  cache :: "string \<rightharpoonup> (int \<times> 'r RateResult)"
  last_sources_as_of :: "int option"

definition init_service :: "int \<Rightarrow> 'r RateService" where
  "init_service ttl_seconds =
     \<lparr>ttl = ttl_seconds, cache = Map.empty, last_sources_as_of = None\<rparr>"

text \<open>What the three fetchers return or raise when they are called.\<close>

record 'r upstream =
  fetch_cbr :: "error + 'r CbrRates"
  fetch_nbu :: "error + 'r NbuRates"
  fetch_binance :: "error + 'r BinanceRates"

section \<open>The graph builder\<close>

text \<open>
  The graph is a Python \<^verbatim>\<open>dict\<close> from a currency code to the list of its outgoing
  edges \<open>(to, rate, source)\<close>. A dict is finite and keeps its keys in insertion order:
  it is an association list with distinct keys.
\<close>

type_synonym 'r edge = "string \<times> 'r \<times> string"
type_synonym 'r graph = "(string \<times> 'r edge list) list"

text \<open>\<^verbatim>\<open>graph.get(cur, [])\<close>\<close>

definition graph_get :: "'r graph \<Rightarrow> string \<Rightarrow> 'r edge list" where
  "graph_get g cur = (case map_of g cur of None \<Rightarrow> [] | Some es \<Rightarrow> es)"

text \<open>\<^verbatim>\<open>g.setdefault(a, []).append((b, r, src))\<close>\<close>

fun add_edge :: "'r graph \<Rightarrow> string \<Rightarrow> string \<Rightarrow> 'r \<Rightarrow> string \<Rightarrow> 'r graph" where
  "add_edge [] a b r src = [(a, [(b, r, src)])]"
| "add_edge ((k, es) # g) a b r src =
     (if k = a then (k, es @ [(b, r, src)]) # g
      else (k, es) # add_edge g a b r src)"

text \<open>\<^verbatim>\<open>x / y\<close> on floats.\<close>

definition fdiv :: "'r::{zero,inverse} \<Rightarrow> 'r \<Rightarrow> error + 'r" where
  "fdiv x y = (if y = 0 then Inl ZeroDivisionError else Inr (x / y))"

text \<open>Sequencing of a step that may raise with the rest of the function body.\<close>

definition bind_e :: "error + 'a \<Rightarrow> ('a \<Rightarrow> error + 'b) \<Rightarrow> error + 'b" where
  "bind_e m f = (case m of Inl e \<Rightarrow> Inl e | Inr v \<Rightarrow> f v)"

text \<open>
  \<^verbatim>\<open>_build_graph\<close>, statement by statement. A division is evaluated before the
  \<^verbatim>\<open>add_edge\<close> call it is an argument of.
\<close>

definition build_graph ::
  "'r::{zero,one,inverse} CbrRates \<Rightarrow> 'r NbuRates \<Rightarrow> 'r BinanceRates \<Rightarrow> error + 'r graph" where
  "build_graph cbr nbu bnc =
    (let g0 = [];
         g1 = add_edge g0 ''EUR'' ''RUB'' (eur_rub cbr) ''CBR'' in
     bind_e (fdiv 1 (eur_rub cbr)) (\<lambda>i1.
     let g2 = add_edge g1 ''RUB'' ''EUR'' i1 ''CBR'';
         g3 = add_edge g2 ''USD'' ''RUB'' (usd_rub cbr) ''CBR'' in
     bind_e (fdiv 1 (usd_rub cbr)) (\<lambda>i2.
     let g4 = add_edge g3 ''RUB'' ''USD'' i2 ''CBR'';
         g5 = add_edge g4 ''EUR'' ''UAH'' (eur_uah nbu) ''NBU'' in
     bind_e (fdiv 1 (eur_uah nbu)) (\<lambda>i3.
     let g6 = add_edge g5 ''UAH'' ''EUR'' i3 ''NBU'';
         g7 = add_edge g6 ''USD'' ''UAH'' (usd_uah nbu) ''NBU'' in
     bind_e (fdiv 1 (usd_uah nbu)) (\<lambda>i4.
     let g8 = add_edge g7 ''UAH'' ''USD'' i4 ''NBU'' in
     bind_e (fdiv (eur_rub cbr) (eur_uah nbu)) (\<lambda>uah_rub.
     let g9 = add_edge g8 ''UAH'' ''RUB'' uah_rub ''CBR+NBU'' in
     bind_e (fdiv 1 uah_rub) (\<lambda>i5.
     let g10 = add_edge g9 ''RUB'' ''UAH'' i5 ''CBR+NBU'';
         g11 = add_edge g10 ''EUR'' ''USDT'' (eur_usdt bnc) ''Binance'' in
     bind_e (fdiv 1 (eur_usdt bnc)) (\<lambda>i6.
     let g12 = add_edge g11 ''USDT'' ''EUR'' i6 ''Binance'';
         g13 = add_edge g12 ''USDT'' ''UAH'' (usdt_uah bnc) ''Binance'' in
     bind_e (fdiv 1 (usdt_uah bnc)) (\<lambda>i7.
     let g14 = add_edge g13 ''UAH'' ''USDT'' i7 ''Binance'';
         g15 = add_edge g14 ''USDT'' ''USD'' (usdt_usd bnc) ''Binance'' in
     bind_e (fdiv 1 (usdt_usd bnc)) (\<lambda>i8.
     let g16 = add_edge g15 ''USD'' ''USDT'' i8 ''Binance'' in
     Inr g16))))))))))"

section \<open>The path resolver\<close>

type_synonym 'r prevmap = "string \<rightharpoonup> (string \<times> 'r \<times> string)"

text \<open>
  The state of the search is the queue \<^verbatim>\<open>q\<close>, the dict \<^verbatim>\<open>prev\<close> and the set
  \<^verbatim>\<open>visited\<close>. \<open>scan_edges\<close> is the inner \<^verbatim>\<open>for nxt, r, src in graph.get(cur, [])\<close>
  loop over the edges that are left; on \<^verbatim>\<open>nxt == to\<close> it clears the queue and breaks.
\<close>

type_synonym 'r bfs_state = "string list \<times> 'r prevmap \<times> string set"

fun scan_edges :: "string \<Rightarrow> string \<Rightarrow> 'r edge list \<Rightarrow> 'r bfs_state \<Rightarrow> 'r bfs_state" where
  "scan_edges to cur [] (q, prev, visited) = (q, prev, visited)"
| "scan_edges to cur ((nxt, r, src) # es) (q, prev, visited) =
     (if nxt \<in> visited then scan_edges to cur es (q, prev, visited)
      else if nxt = to then ([], prev(nxt \<mapsto> (cur, r, src)), insert nxt visited)
      else scan_edges to cur es (q @ [nxt], prev(nxt \<mapsto> (cur, r, src)), insert nxt visited))"

text \<open>All codes that occur as the target of an edge of the graph.\<close>

definition targets :: "'r graph \<Rightarrow> string set" where
  "targets g = (\<Union>(k, es) \<in> set g. fst ` set es)"

lemma graph_get_targets: "fst ` set (graph_get g cur) \<subseteq> targets g"
proof (cases "map_of g cur")
  case None
  then show ?thesis by (simp add: graph_get_def)
next
  case (Some es)
  then have "(cur, es) \<in> set g" by (rule map_of_SomeD)
  then show ?thesis using Some by (auto simp: graph_get_def targets_def)
qed

lemma finite_targets: "finite (targets g)"
  by (auto simp: targets_def)

lemma scan_edges_measure:
  assumes "fst ` set es \<subseteq> N" and "finite N"
    and "scan_edges to cur es (q, prev, visited) = (q', prev', visited')"
  shows "card (N - visited') + length q' \<le> card (N - visited) + length q"
  using assms
proof (induction es arbitrary: q prev visited)
  case Nil
  then show ?case by simp
next
  case (Cons e es)
  obtain nxt r src where e: "e = (nxt, r, src)" by (cases e)
  have nxtN: "nxt \<in> N" using Cons.prems(1) e by simp
  have sub: "fst ` set es \<subseteq> N" using Cons.prems(1) by simp
  show ?case
  proof (cases "nxt \<in> visited")
    case True
    then show ?thesis using Cons.IH[OF sub Cons.prems(2)] Cons.prems(3) e by simp
  next
    case False
    have dec: "card (N - insert nxt visited) < card (N - visited)"
      using False nxtN Cons.prems(2)
      by (intro psubset_card_mono) auto
    show ?thesis
    proof (cases "nxt = to")
      case True
      then show ?thesis using False Cons.prems(3) e dec by auto
    next
      case neq: False
      have "scan_edges to cur es (q @ [nxt], prev(nxt \<mapsto> (cur, r, src)), insert nxt visited)
              = (q', prev', visited')"
        using False neq Cons.prems(3) e by simp
      from Cons.IH[OF sub Cons.prems(2) this] dec show ?thesis by simp
    qed
  qed
qed

text \<open>The outer \<^verbatim>\<open>while q:\<close> loop; \<^verbatim>\<open>cur = q.popleft()\<close> takes the head.\<close>

function bfs_loop :: "'r graph \<Rightarrow> string \<Rightarrow> 'r bfs_state \<Rightarrow> 'r prevmap" where
  "bfs_loop g to ([], prev, visited) = prev"
| "bfs_loop g to (cur # q, prev, visited) =
     bfs_loop g to (scan_edges to cur (graph_get g cur) (q, prev, visited))"
  by pat_completeness auto
termination
proof (relation "measure (\<lambda>(g, to, q, prev, visited). card (targets g - visited) + length q)")
  show "wf (measure (\<lambda>(g, to, q, prev, visited). card (targets g - visited) + length q))"
    by simp
next
  fix g :: "'r graph" and to cur q and prev :: "'r prevmap" and visited
  obtain q' prev' visited' where
    s: "scan_edges to cur (graph_get g cur) (q, prev, visited) = (q', prev', visited')"
    by (cases "scan_edges to cur (graph_get g cur) (q, prev, visited)")
  from scan_edges_measure[OF graph_get_targets finite_targets s]
  show "((g, to, scan_edges to cur (graph_get g cur) (q, prev, visited)),
         (g, to, cur # q, prev, visited))
        \<in> measure (\<lambda>(g, to, q, prev, visited). card (targets g - visited) + length q)"
    using s by simp
qed

declare bfs_loop.simps(2) [simp del]

text \<open>
  The reconstruction loop \<^verbatim>\<open>while cur != frm\<close>. \<^verbatim>\<open>prev[cur]\<close> raises
  \<^verbatim>\<open>KeyError\<close> on a missing key, and on a cyclic \<^verbatim>\<open>prev\<close> the loop would not end:
  not returning is the value \<open>None\<close>. (The local \<^verbatim>\<open>rate\<close> is written \<open>rate'\<close>:
  \<open>rate\<close> is the field of \<open>RateResult\<close>.)
\<close>

partial_function (option) reconstruct ::
  "'r::times prevmap \<Rightarrow> string \<Rightarrow> string \<Rightarrow> hop list \<Rightarrow> 'r \<Rightarrow> (error + hop list \<times> 'r) option" where
  "reconstruct prev frm cur path_edges rate' =
     (if cur \<noteq> frm then
        (case prev cur of
           None \<Rightarrow> Some (Inl (KeyError cur))
         | Some (p, r, src) \<Rightarrow> reconstruct prev frm p (path_edges @ [(p, cur, src)]) (rate' * r))
      else Some (Inr (path_edges, rate')))"

text \<open>\<^verbatim>\<open>self._last_sources_as_of or now\<close>\<close>

definition as_of_or_now :: "int option \<Rightarrow> int \<Rightarrow> int" where
  "as_of_or_now last_as_of now = (case last_as_of of None \<Rightarrow> now | Some t \<Rightarrow> t)"

definition no_path_message :: "string \<Rightarrow> string \<Rightarrow> string" where
  "no_path_message frm to = ''No conversion path from '' @ frm @ '' to '' @ to"

text \<open>
  \<^verbatim>\<open>_find_rate\<close>. The argument \<open>last_as_of\<close> is \<^verbatim>\<open>self._last_sources_as_of\<close>, the only
  part of the service the method reads.
\<close>

definition find_rate ::
  "'r::{one,times} graph \<Rightarrow> string \<Rightarrow> string \<Rightarrow> int \<Rightarrow> int option
     \<Rightarrow> (error + 'r \<times> hop list \<times> int) option" where
  "find_rate graph frm to now last_as_of =
     (if frm = to then Some (Inr (1, [], as_of_or_now last_as_of now))
      else
        let prev = bfs_loop graph to ([frm], Map.empty, {frm}) in
        if prev to = None then Some (Inl (RuntimeError (no_path_message frm to)))
        else
          (case reconstruct prev frm to [] 1 of
             None \<Rightarrow> None
           | Some (Inl e) \<Rightarrow> Some (Inl e)
           | Some (Inr (path_edges, rate')) \<Rightarrow>
               Some (Inr (rate', rev path_edges, as_of_or_now last_as_of now))))"

section \<open>The service: cache and refresh\<close>

text \<open>
  \<^verbatim>\<open>str.upper()\<close> on the letters of ASCII; the bytes of other characters are left as
  they are.
\<close>

definition upper_char :: "char \<Rightarrow> char" where
  "upper_char c =
     (case map_of (zip ''abcdefghijklmnopqrstuvwxyz'' ''ABCDEFGHIJKLMNOPQRSTUVWXYZ'') c of
        None \<Rightarrow> c
      | Some u \<Rightarrow> u)"

definition upper :: "string \<Rightarrow> string" where
  "upper s = map upper_char s"

definition cache_key :: "string \<Rightarrow> string \<Rightarrow> string" where
  "cache_key frm to = frm @ ''->'' @ to"

text \<open>
  \<^verbatim>\<open>_fetch_all\<close>: the three fetchers in sequence; the first exception ends the call.
  \<^verbatim>\<open>_last_sources_as_of\<close> is assigned after the third fetch only. The third component
  is the list of fetchers that were called.
\<close>

definition fetch_all ::
  "'r upstream \<Rightarrow> 'r RateService
     \<Rightarrow> (error + 'r CbrRates \<times> 'r NbuRates \<times> 'r BinanceRates) \<times> 'r RateService \<times> provider list" where
  "fetch_all up s =
     (case fetch_cbr up of
        Inl e \<Rightarrow> (Inl e, s, [CBR])
      | Inr cbr \<Rightarrow>
         (case fetch_nbu up of
            Inl e \<Rightarrow> (Inl e, s, [CBR, NBU])
          | Inr nbu \<Rightarrow>
             (case fetch_binance up of
                Inl e \<Rightarrow> (Inl e, s, [CBR, NBU, Binance])
              | Inr bnc \<Rightarrow>
                  (Inr (cbr, nbu, bnc),
                   s\<lparr>last_sources_as_of :=
                        Some (max (max (cbr_as_of cbr) (nbu_as_of nbu)) (bnc_as_of bnc))\<rparr>,
                   [CBR, NBU, Binance]))))"

text \<open>\<^verbatim>\<open>cached and cached[0] > now\<close>: the stored result when the entry is fresh.\<close>

definition fresh_entry :: "'r RateService \<Rightarrow> string \<Rightarrow> int \<Rightarrow> 'r RateResult option" where
  "fresh_entry s key now =
     (case cache s key of
        None \<Rightarrow> None
      | Some (expiry, res) \<Rightarrow> if expiry > now then Some res else None)"

text \<open>The body of \<^verbatim>\<open>get_rate\<close> after the cache check (lines 34 to 42).\<close>

definition refresh ::
  "'r::{zero,one,times,inverse} upstream \<Rightarrow> int \<Rightarrow> 'r RateService \<Rightarrow> string \<Rightarrow> string \<Rightarrow> string
     \<Rightarrow> ((error + 'r RateResult) \<times> 'r RateService \<times> provider list) option" where
  "refresh up now s frm to key =
     (case fetch_all up s of
        (Inl e, s1, tr) \<Rightarrow> Some (Inl e, s1, tr)
      | (Inr (cbr, nbu, bnc), s1, tr) \<Rightarrow>
         (case build_graph cbr nbu bnc of
            Inl e \<Rightarrow> Some (Inl e, s1, tr)
          | Inr graph \<Rightarrow>
             (case find_rate graph frm to now (last_sources_as_of s1) of
                None \<Rightarrow> None
              | Some (Inl e) \<Rightarrow> Some (Inl e, s1, tr)
              | Some (Inr (rate', path', as_of')) \<Rightarrow>
                  let result = \<lparr>rate = rate', path = path', as_of = as_of'\<rparr> in
                  Some (Inr result,
                        s1\<lparr>cache := (cache s1)(key \<mapsto> (now + ttl s1, result))\<rparr>,
                        tr))))"

text \<open>
  \<^verbatim>\<open>get_rate\<close>. \<open>now\<close> is the value of \<^verbatim>\<open>datetime.now(timezone.utc)\<close> read at line 29.
  The result is \<open>None\<close> when the call does not return; otherwise the value or exception,
  the service afterwards, and the fetchers called.
\<close>

definition get_rate ::
  "'r::{zero,one,times,inverse} upstream \<Rightarrow> int \<Rightarrow> 'r RateService \<Rightarrow> string \<Rightarrow> string
     \<Rightarrow> ((error + 'r RateResult) \<times> 'r RateService \<times> provider list) option" where
  "get_rate up now s frm0 to0 =
     (let frm = upper frm0;
          to = upper to0;
          key = cache_key frm to in
      case fresh_entry s key now of
        Some res \<Rightarrow> Some (Inr res, s, [])
      | None \<Rightarrow> refresh up now s frm to key)"

section \<open>Notions the properties are stated with\<close>

text \<open>
  An edge \<open>u \<rightarrow> v\<close> of the graph is an entry with target \<open>v\<close> in the list
  \<^verbatim>\<open>graph.get(u, [])\<close>.
\<close>

definition edge_rel :: "'r graph \<Rightarrow> (string \<times> string) set" where
  "edge_rel g = {(u, v). v \<in> fst ` set (graph_get g u)}"

text \<open>
  Some walk along edges leads from \<open>a\<close> to \<open>b\<close>.
\<close>

definition reachable :: "'r graph \<Rightarrow> string \<Rightarrow> string \<Rightarrow> bool" where
  "reachable g a b = (\<exists>n. (a, b) \<in> edge_rel g ^^ n)"

text \<open>
  The least number of edges of a walk from \<open>a\<close> to \<open>b\<close> (meaningful when \<open>b\<close> is reachable).
\<close>

definition hop_dist :: "'r graph \<Rightarrow> string \<Rightarrow> string \<Rightarrow> nat" where
  "hop_dist g a b = (LEAST n. (a, b) \<in> edge_rel g ^^ n)"

text \<open>
  A path as the resolver returns it is a list of hops (from, to, source). It is a path of the
  graph from \<open>a\<close> to \<open>b\<close> when it starts at \<open>a\<close>, ends at \<open>b\<close>, every hop starts where the hop
  before it ended, and every hop is an edge of the graph with that target and source label.
\<close>

fun valid_path :: "'r graph \<Rightarrow> string \<Rightarrow> hop list \<Rightarrow> string \<Rightarrow> bool" where
  "valid_path g a [] b = (a = b)"
| "valid_path g a ((u, v, s) # hs) b =
     (u = a \<and> (v, s) \<in> (\<lambda>(t, r, s'). (t, s')) ` set (graph_get g a) \<and> valid_path g v hs b)"

text \<open>
  The factor of a hop: the factor of the first edge, in insertion order, from the origin of
  the hop to its target, provided that edge bears the source label of the hop.
\<close>

fun hop_factor :: "'r graph \<Rightarrow> hop \<Rightarrow> 'r option" where
  "hop_factor g (p, c, s) =
     (case find (\<lambda>e. fst e = c) (graph_get g p) of
        None \<Rightarrow> None
      | Some (t, r, s') \<Rightarrow> if s' = s then Some r else None)"

text \<open>
  The factors of a list of hops multiplied onto an accumulator one after the other, in the
  order of the list, as \<^verbatim>\<open>rate *= r\<close> does.
\<close>

fun rate_along :: "'r::times graph \<Rightarrow> hop list \<Rightarrow> 'r \<Rightarrow> 'r option" where
  "rate_along g [] acc = Some acc"
| "rate_along g (h # hs) acc =
     (case hop_factor g h of None \<Rightarrow> None | Some r \<Rightarrow> rate_along g hs (acc * r))"

text \<open>
  The codes a path visits: the source, then the target of every hop.
\<close>

definition path_nodes :: "string \<Rightarrow> hop list \<Rightarrow> string list" where
  "path_nodes frm hs = frm # map (\<lambda>(u, v, s). v) hs"




text \<open>
  The value \<^verbatim>\<open>_build_graph\<close> returns when no division raises, written out: the argument
  names are the seven rate fields in the order of the snapshots.
\<close>

definition built_graph :: "'r::{one,inverse} \<Rightarrow> 'r \<Rightarrow> 'r \<Rightarrow> 'r \<Rightarrow> 'r \<Rightarrow> 'r \<Rightarrow> 'r \<Rightarrow> 'r graph" where
  "built_graph a b c d e f h =
    [(''EUR'', [(''RUB'', a, ''CBR''), (''UAH'', c, ''NBU''), (''USDT'', e, ''Binance'')]),
     (''RUB'', [(''EUR'', 1 / a, ''CBR''), (''USD'', 1 / b, ''CBR''),
                (''UAH'', 1 / (a / c), ''CBR+NBU'')]),
     (''USD'', [(''RUB'', b, ''CBR''), (''UAH'', d, ''NBU''), (''USDT'', 1 / h, ''Binance'')]),
     (''UAH'', [(''EUR'', 1 / c, ''NBU''), (''USD'', 1 / d, ''NBU''), (''RUB'', a / c, ''CBR+NBU''),
                (''USDT'', 1 / f, ''Binance'')]),
     (''USDT'', [(''EUR'', 1 / e, ''Binance''), (''UAH'', f, ''Binance''),
                 (''USD'', h, ''Binance'')])]"


section \<open>Invariants of the search\<close>



text \<open>
  What holds of \<^verbatim>\<open>prev\<close> all along the search from \<open>frm\<close>: the source has no entry; the
  predecessor recorded for a code is the source or has an entry itself, is reachable, is one
  hop closer to the source, and the recorded factor and label are those of its first edge to
  that code.
\<close>

definition tree_inv :: "'r graph \<Rightarrow> string \<Rightarrow> 'r prevmap \<Rightarrow> bool" where
  "tree_inv g frm P =
     (frm \<notin> dom P \<and>
      (\<forall>v p r s. P v = Some (p, r, s) \<longrightarrow>
         (p = frm \<or> p \<in> dom P) \<and> reachable g frm p \<and>
         hop_dist g frm v = Suc (hop_dist g frm p) \<and>
         find (\<lambda>e. fst e = v) (graph_get g p) = Some (v, r, s)))"

text \<open>
  The invariant of the search as long as the destination has not been found. \<open>fr\<close> is the
  frontier: the queue, headed by the code whose edges are being scanned. The visited codes
  are the source and the keys of \<^verbatim>\<open>prev\<close>; the frontier is sorted by distance and spans at
  most two levels; every visited code outside the frontier has all its successors visited.
\<close>

definition bfs_inv ::
  "'r graph \<Rightarrow> string \<Rightarrow> string \<Rightarrow> string list \<Rightarrow> 'r prevmap \<Rightarrow> string set \<Rightarrow> bool" where
  "bfs_inv g frm to fr P V =
     (tree_inv g frm P \<and> V = insert frm (dom P) \<and> to \<notin> V \<and> set fr \<subseteq> V \<and>
      sorted (map (hop_dist g frm) fr) \<and>
      (\<forall>v\<in>set fr. hop_dist g frm v \<le> Suc (hop_dist g frm (hd fr))) \<and>
      (\<forall>u\<in>V - set fr. \<forall>w. (u, w) \<in> edge_rel g \<longrightarrow> w \<in> V))"

text \<open>
  The state after the edges of a code have been scanned: the invariant holds for the queue
  that is left, or the destination has been found and the queue is cleared.
\<close>

definition bfs_done :: "'r graph \<Rightarrow> string \<Rightarrow> string \<Rightarrow> 'r bfs_state \<Rightarrow> bool" where
  "bfs_done g frm to st =
     (case st of (q, P, V) \<Rightarrow>
        bfs_inv g frm to q P V \<or> (q = [] \<and> to \<in> dom P \<and> tree_inv g frm P))"

section \<open>Example inputs\<close>

text \<open>The snapshots of the concrete scenario of the specification; \<open>t\<close> is the retrieval time.\<close>

definition scenario_cbr :: "int \<Rightarrow> real CbrRates" where
  "scenario_cbr t = \<lparr>eur_rub = 100, usd_rub = 90, cbr_as_of = t\<rparr>"

definition scenario_nbu :: "int \<Rightarrow> real NbuRates" where
  "scenario_nbu t = \<lparr>eur_uah = 45, usd_uah = 40, nbu_as_of = t\<rparr>"

definition scenario_bnc :: "int \<Rightarrow> real BinanceRates" where
  "scenario_bnc t = \<lparr>eur_usdt = 11 / 10, usdt_uah = 41, usdt_usd = 1, bnc_as_of = t\<rparr>"

text \<open>
  An upstream on which all three fetches succeed with the snapshots of the scenario
  (retrieved at the instants 5, 7 and 6), and one on which the NBU fetch raises.
\<close>

definition scenario_up :: "real upstream" where
  "scenario_up =
     \<lparr>fetch_cbr = Inr (scenario_cbr 5), fetch_nbu = Inr (scenario_nbu 7),
      fetch_binance = Inr (scenario_bnc 6)\<rparr>"

definition failing_up :: "real upstream" where
  "failing_up =
     \<lparr>fetch_cbr = Inr (scenario_cbr 5), fetch_nbu = Inl (ProviderError ''NBU: currency not found: EUR''),
      fetch_binance = Inr (scenario_bnc 6)\<rparr>"

text \<open>
  Results and a service state that occur in the examples: the result for equal codes, and the
  result and the service after a first request for USD to EUR at the instant 1000 with a TTL
  of 600.
\<close>

definition identity_result :: "int \<Rightarrow> real RateResult" where
  "identity_result t = \<lparr>rate = 1, path = [], as_of = t\<rparr>"

definition usd_eur_result :: "real RateResult" where
  "usd_eur_result =
     \<lparr>rate = 9 / 10, path = [(''USD'', ''RUB'', ''CBR''), (''RUB'', ''EUR'', ''CBR'')], as_of = 7\<rparr>"

definition usd_eur_service :: "real RateService" where
  "usd_eur_service =
     \<lparr>ttl = 600, cache = [''USD->EUR'' \<mapsto> (1600, usd_eur_result)], last_sources_as_of = Some 7\<rparr>"

text \<open>
  Two graphs of the same shape with two routes of two hops from \<open>A\<close> to \<open>D\<close>, and a graph in
  which \<open>C\<close> cannot be reached from \<open>B\<close>.
\<close>

definition tie_graph :: "real graph" where
  "tie_graph =
     [(''A'', [(''B'', 2, ''x''), (''C'', 10, ''y'')]),
      (''B'', [(''D'', 3, ''x'')]),
      (''C'', [(''D'', 100, ''y'')])]"


definition gap_graph :: "real graph" where
  "gap_graph = [(''A'', [(''B'', 2, ''x'')]), (''C'', [(''A'', 5, ''y'')])]"

section \<open>Walks and distances\<close>

lemma dist_le: "(a, b) \<in> edge_rel g ^^ n \<Longrightarrow> hop_dist g a b \<le> n"
  unfolding hop_dist_def by (rule Least_le)

lemma dist_reach: "reachable g a b \<Longrightarrow> (a, b) \<in> edge_rel g ^^ hop_dist g a b"
  unfolding hop_dist_def reachable_def by (erule exE) (rule LeastI)

lemma dist_self [simp]: "hop_dist g a a = 0"
  using dist_le[where a=a and b=a and n=0 and g=g] by simp

lemma reachable_self [simp]: "reachable g a a"
  unfolding reachable_def by (rule exI[of _ 0]) simp

lemma reachable_step: "reachable g a u \<Longrightarrow> (u, w) \<in> edge_rel g \<Longrightarrow> reachable g a w"
  unfolding reachable_def by (meson relpow_Suc_I)

lemma dist_step: "reachable g a u \<Longrightarrow> (u, w) \<in> edge_rel g \<Longrightarrow> hop_dist g a w \<le> Suc (hop_dist g a u)"
  by (meson dist_le dist_reach relpow_Suc_I)

lemma valid_path_relpow: "valid_path g a hs b \<Longrightarrow> (a, b) \<in> edge_rel g ^^ length hs"
proof (induction hs arbitrary: a)
  case Nil
  then show ?case by simp
next
  case (Cons h hs)
  obtain u v s where h: "h = (u, v, s)" by (cases h)
  from Cons.prems h have e: "(a, v) \<in> edge_rel g" and r: "valid_path g v hs b"
    by (force simp: edge_rel_def)+
  from relpow_Suc_I2[OF e Cons.IH[OF r]] show ?case by (simp del: relpow.simps)
qed

lemma valid_path_snoc:
  "valid_path g a hs p \<Longrightarrow> (v, s) \<in> (\<lambda>(t, r, s'). (t, s')) ` set (graph_get g p)
     \<Longrightarrow> valid_path g a (hs @ [(p, v, s)]) v"
  by (induction hs arbitrary: a) auto

lemma reachable_iff_path: "reachable g a b \<longleftrightarrow> (\<exists>ps. valid_path g a ps b)"
proof
  assume "reachable g a b"
  then obtain n where "(a, b) \<in> edge_rel g ^^ n" unfolding reachable_def by blast
  then show "\<exists>ps. valid_path g a ps b"
  proof (induction n arbitrary: b)
    case 0
    then have "valid_path g a [] b" by simp
    then show ?case by blast
  next
    case (Suc n)
    then obtain u where au: "(a, u) \<in> edge_rel g ^^ n" and ub: "(u, b) \<in> edge_rel g" by auto
    from Suc.IH[OF au] obtain ps where ps: "valid_path g a ps u" by blast
    from ub obtain r s where "(b, r, s) \<in> set (graph_get g u)" by (auto simp: edge_rel_def)
    then have "(b, s) \<in> (\<lambda>(t, r, s'). (t, s')) ` set (graph_get g u)" by force
    from valid_path_snoc[OF ps this] show ?case by blast
  qed
next
  assume "\<exists>ps. valid_path g a ps b"
  then show "reachable g a b" unfolding reachable_def using valid_path_relpow by blast
qed

lemma find_first:
  "\<forall>x\<in>set ds. \<not> P x \<Longrightarrow> P e \<Longrightarrow> find P (ds @ e # es) = Some e"
  by (induction ds) auto

lemma find_edge_rel:
  "find (\<lambda>e. fst e = v) (graph_get g p) = Some (v, r, s) \<Longrightarrow> (p, v) \<in> edge_rel g"
  by (force simp: edge_rel_def find_Some_iff in_set_conv_nth)

lemma find_edge_labelled:
  "find (\<lambda>e. fst e = v) (graph_get g p) = Some (v, r, s)
     \<Longrightarrow> (v, s) \<in> (\<lambda>(t, r, s'). (t, s')) ` set (graph_get g p)"
proof -
  assume "find (\<lambda>e. fst e = v) (graph_get g p) = Some (v, r, s)"
  then have "(v, r, s) \<in> set (graph_get g p)"
    by (auto simp: find_Some_iff)
  then show ?thesis by force
qed

lemma hop_factor_find:
  "find (\<lambda>e. fst e = v) (graph_get g p) = Some (v, r, s) \<Longrightarrow> hop_factor g (p, v, s) = Some r"
  by simp


section \<open>The search keeps its invariant\<close>

lemma bfs_invD:
  assumes "bfs_inv g frm to fr P V"
  shows "tree_inv g frm P" and "V = insert frm (dom P)" and "to \<notin> V" and "set fr \<subseteq> V"
    and "sorted (map (hop_dist g frm) fr)"
    and "\<And>v. v \<in> set fr \<Longrightarrow> hop_dist g frm v \<le> Suc (hop_dist g frm (hd fr))"
    and "\<And>u w. u \<in> V \<Longrightarrow> u \<notin> set fr \<Longrightarrow> (u, w) \<in> edge_rel g \<Longrightarrow> w \<in> V"
  using assms unfolding bfs_inv_def by blast+

lemma bfs_invI:
  assumes "tree_inv g frm P" and "V = insert frm (dom P)" and "to \<notin> V" and "set fr \<subseteq> V"
    and "sorted (map (hop_dist g frm) fr)"
    and "\<And>v. v \<in> set fr \<Longrightarrow> hop_dist g frm v \<le> Suc (hop_dist g frm (hd fr))"
    and "\<And>u w. u \<in> V \<Longrightarrow> u \<notin> set fr \<Longrightarrow> (u, w) \<in> edge_rel g \<Longrightarrow> w \<in> V"
  shows "bfs_inv g frm to fr P V"
  unfolding bfs_inv_def
  apply (intro conjI ballI allI impI)
  using assms by blast+

lemma tree_inv_reachable:
  assumes "tree_inv g frm P" and "v = frm \<or> v \<in> dom P"
  shows "reachable g frm v"
proof (cases "v = frm")
  case True
  then show ?thesis by simp
next
  case False
  with assms(2) obtain p r s where pv: "P v = Some (p, r, s)" by auto
  with assms(1) have "reachable g frm p" and "find (\<lambda>e. fst e = v) (graph_get g p) = Some (v, r, s)"
    unfolding tree_inv_def by blast+
  then show ?thesis by (blast intro: reachable_step find_edge_rel)
qed

lemma bfs_inv_reachable: "bfs_inv g frm to fr P V \<Longrightarrow> v \<in> V \<Longrightarrow> reachable g frm v"
  unfolding bfs_inv_def using tree_inv_reachable by blast

text \<open>No unvisited node is closer to the source than one step beyond the head of the frontier.\<close>

lemma unvisited_far:
  assumes inv: "bfs_inv g frm to (cur # q) P V"
  shows "(frm, w) \<in> edge_rel g ^^ n \<Longrightarrow> w \<notin> V \<Longrightarrow> Suc (hop_dist g frm cur) \<le> n"
proof (induction n arbitrary: w)
  case 0
  then have "w = frm" by simp
  with inv 0 show ?case unfolding bfs_inv_def by simp
next
  case (Suc n)
  from Suc.prems(1) obtain u where fu: "(frm, u) \<in> edge_rel g ^^ n" and uw: "(u, w) \<in> edge_rel g"
    by auto
  show ?case
  proof (cases "u \<in> V")
    case True
    have "u \<in> set (cur # q)"
    proof (rule ccontr)
      assume "u \<notin> set (cur # q)"
      with True inv uw have "w \<in> V" unfolding bfs_inv_def by blast
      with Suc.prems(2) show False by simp
    qed
    moreover have "sorted (map (hop_dist g frm) (cur # q))" using inv unfolding bfs_inv_def by blast
    ultimately have "hop_dist g frm cur \<le> hop_dist g frm u" by auto
    moreover have "hop_dist g frm u \<le> n" using fu by (rule dist_le)
    ultimately show ?thesis by simp
  next
    case False
    from Suc.IH[OF fu False] show ?thesis by simp
  qed
qed

text \<open>What is known of a node at the moment it is discovered.\<close>

lemma discover:
  assumes inv: "bfs_inv g frm to (cur # q) P V"
    and split: "graph_get g cur = ds @ (nxt, r, s) # es"
    and seen: "\<forall>e\<in>set ds. fst e \<in> V"
    and new: "nxt \<notin> V"
  shows "reachable g frm cur" and "hop_dist g frm nxt = Suc (hop_dist g frm cur)"
    and "find (\<lambda>e. fst e = nxt) (graph_get g cur) = Some (nxt, r, s)"
    and "cur = frm \<or> cur \<in> dom P"
proof -
  have curV: "cur \<in> V" using bfs_invD(4)[OF inv] by simp
  then show rc: "reachable g frm cur" using inv by (rule bfs_inv_reachable[rotated])
  have V: "V = insert frm (dom P)" using inv by (rule bfs_invD)
  show "cur = frm \<or> cur \<in> dom P" using curV unfolding V by blast
  have e: "(cur, nxt) \<in> edge_rel g" using split by (force simp: edge_rel_def)
  have le: "hop_dist g frm nxt \<le> Suc (hop_dist g frm cur)" using rc e by (rule dist_step)
  have "reachable g frm nxt" using rc e by (rule reachable_step)
  then have "(frm, nxt) \<in> edge_rel g ^^ hop_dist g frm nxt" by (rule dist_reach)
  from unvisited_far[OF inv this new] le
  show "hop_dist g frm nxt = Suc (hop_dist g frm cur)" by simp
  have "\<forall>x\<in>set ds. \<not> fst x = nxt" using seen new by auto
  then show "find (\<lambda>e. fst e = nxt) (graph_get g cur) = Some (nxt, r, s)"
    unfolding split by (rule find_first) simp
qed

lemma tree_inv_upd:
  assumes t: "tree_inv g frm P" and new: "nxt \<notin> insert frm (dom P)"
    and p: "cur = frm \<or> cur \<in> dom P" and rc: "reachable g frm cur"
    and d: "hop_dist g frm nxt = Suc (hop_dist g frm cur)"
    and f: "find (\<lambda>e. fst e = nxt) (graph_get g cur) = Some (nxt, r, s)"
  shows "tree_inv g frm (P(nxt \<mapsto> (cur, r, s)))"
proof -
  have a: "frm \<notin> dom (P(nxt \<mapsto> (cur, r, s)))" using t new unfolding tree_inv_def by auto
  have b: "(p' = frm \<or> p' \<in> dom (P(nxt \<mapsto> (cur, r, s)))) \<and> reachable g frm p' \<and>
        hop_dist g frm v = Suc (hop_dist g frm p') \<and>
        find (\<lambda>e. fst e = v) (graph_get g p') = Some (v, r', s')"
    if a: "(P(nxt \<mapsto> (cur, r, s))) v = Some (p', r', s')" for v p' r' s'
  proof (cases "v = nxt")
    case True
    with a have "p' = cur" "r' = r" "s' = s" by simp_all
    with True p rc d f show ?thesis by auto
  next
    case False
    with a have "P v = Some (p', r', s')" by simp
    with t have "(p' = frm \<or> p' \<in> dom P) \<and> reachable g frm p' \<and>
        hop_dist g frm v = Suc (hop_dist g frm p') \<and>
        find (\<lambda>e. fst e = v) (graph_get g p') = Some (v, r', s')"
      unfolding tree_inv_def by blast
    then show ?thesis by auto
  qed
  show ?thesis unfolding tree_inv_def using a b by blast
qed

lemma inv_push:
  assumes inv: "bfs_inv g frm to (cur # q) P V"
    and split: "graph_get g cur = ds @ (nxt, r, s) # es"
    and seen: "\<forall>e\<in>set ds. fst e \<in> V"
    and new: "nxt \<notin> V" and neq: "nxt \<noteq> to"
  shows "bfs_inv g frm to (cur # q @ [nxt]) (P(nxt \<mapsto> (cur, r, s))) (insert nxt V)"
proof -
  note d = discover[OF inv split seen new]
  note i = bfs_invD[OF inv]
  have t: "tree_inv g frm (P(nxt \<mapsto> (cur, r, s)))"
    using i(1) new[unfolded i(2)] d(4) d(1) d(2) d(3) by (rule tree_inv_upd)
  have v: "insert nxt V = insert frm (dom (P(nxt \<mapsto> (cur, r, s))))" unfolding i(2) by auto
  have n: "to \<notin> insert nxt V" using i(3) neq by auto
  have f: "set (cur # q @ [nxt]) \<subseteq> insert nxt V" using i(4) by auto
  have le: "hop_dist g frm v \<le> Suc (hop_dist g frm cur)" if "v \<in> set (cur # q)" for v
    using i(6)[OF that] by simp
  have so: "sorted (map (hop_dist g frm) (cur # q @ [nxt]))"
    using i(5) le d(2) by (auto simp: sorted_append)
  have b: "hop_dist g frm v \<le> Suc (hop_dist g frm (hd (cur # q @ [nxt])))"
    if "v \<in> set (cur # q @ [nxt])" for v
    using that le d(2) by auto
  have c: "w \<in> insert nxt V"
    if "u \<in> insert nxt V" "u \<notin> set (cur # q @ [nxt])" "(u, w) \<in> edge_rel g" for u w
  proof -
    from that have "u \<in> V" "u \<notin> set (cur # q)" by auto
    from i(7)[OF this that(3)] show ?thesis by simp
  qed
  show ?thesis using t v n f so b c by (rule bfs_invI)
qed

lemma inv_pop:
  assumes inv: "bfs_inv g frm to (cur # q) P V"
    and seen: "\<forall>e\<in>set (graph_get g cur). fst e \<in> V"
  shows "bfs_inv g frm to q P V"
proof -
  note i = bfs_invD[OF inv]
  have f: "set q \<subseteq> V" using i(4) by auto
  have so: "sorted (map (hop_dist g frm) q)" using i(5) by simp
  have b: "hop_dist g frm v \<le> Suc (hop_dist g frm (hd q))" if "v \<in> set q" for v
  proof -
    from that have "hd q \<in> set q" by (cases q) auto
    with i(5) have "hop_dist g frm cur \<le> hop_dist g frm (hd q)" by auto
    moreover have "hop_dist g frm v \<le> Suc (hop_dist g frm cur)" using i(6)[of v] that by simp
    ultimately show ?thesis by simp
  qed
  have c: "w \<in> V" if "u \<in> V" "u \<notin> set q" "(u, w) \<in> edge_rel g" for u w
  proof (cases "u = cur")
    case True
    with that(3) seen show ?thesis by (auto simp: edge_rel_def)
  next
    case False
    with that have "u \<notin> set (cur # q)" by simp
    from i(7)[OF that(1) this that(3)] show ?thesis .
  qed
  show ?thesis using i(1) i(2) i(3) f so b c by (rule bfs_invI)
qed

lemma scan_edges_inv:
  assumes "bfs_inv g frm to (cur # q) P V"
    and "graph_get g cur = ds @ es"
    and "\<forall>e\<in>set ds. fst e \<in> V"
  shows "bfs_done g frm to (scan_edges to cur es (q, P, V))"
  using assms
proof (induction es arbitrary: ds q P V)
  case Nil
  then have "bfs_inv g frm to q P V" by (simp add: inv_pop)
  then show ?case by (simp add: bfs_done_def)
next
  case (Cons e es)
  obtain nxt r s where e: "e = (nxt, r, s)" by (cases e)
  have split: "graph_get g cur = ds @ (nxt, r, s) # es" using Cons.prems(2) e by simp
  have split': "graph_get g cur = (ds @ [e]) @ es" using Cons.prems(2) by simp
  show ?case
  proof (cases "nxt \<in> V")
    case True
    have "\<forall>x\<in>set (ds @ [e]). fst x \<in> V" using Cons.prems(3) True e by simp
    from Cons.IH[OF Cons.prems(1) split' this]
    have "bfs_done g frm to (scan_edges to cur es (q, P, V))" .
    moreover have "scan_edges to cur (e # es) (q, P, V) = scan_edges to cur es (q, P, V)"
      using True e by simp
    ultimately show ?thesis by (simp only:)
  next
    case False
    note d = discover[OF Cons.prems(1) split Cons.prems(3) False]
    note i = bfs_invD[OF Cons.prems(1)]
    show ?thesis
    proof (cases "nxt = to")
      case True
      have "tree_inv g frm (P(nxt \<mapsto> (cur, r, s)))"
        using i(1) False[unfolded i(2)] d(4) d(1) d(2) d(3) by (rule tree_inv_upd)
      then show ?thesis using True False e by (simp add: bfs_done_def)
    next
      case neq: False
      have inv': "bfs_inv g frm to (cur # q @ [nxt]) (P(nxt \<mapsto> (cur, r, s))) (insert nxt V)"
        using Cons.prems(1) split Cons.prems(3) False neq by (rule inv_push)
      have "\<forall>x\<in>set (ds @ [e]). fst x \<in> insert nxt V" using Cons.prems(3) e by simp
      from Cons.IH[OF inv' split' this]
      have "bfs_done g frm to
              (scan_edges to cur es (q @ [nxt], P(nxt \<mapsto> (cur, r, s)), insert nxt V))" .
      moreover have "scan_edges to cur (e # es) (q, P, V)
            = scan_edges to cur es (q @ [nxt], P(nxt \<mapsto> (cur, r, s)), insert nxt V)"
        using False neq e by simp
      ultimately show ?thesis by (simp only:)
    qed
  qed
qed

lemma closed_reach:
  assumes inv: "bfs_inv g frm to [] P V"
  shows "(frm, w) \<in> edge_rel g ^^ n \<Longrightarrow> w \<in> V"
proof (induction n arbitrary: w)
  case 0
  then show ?case using bfs_invD(2)[OF inv] by simp
next
  case (Suc n)
  then obtain u where "(frm, u) \<in> edge_rel g ^^ n" and uw: "(u, w) \<in> edge_rel g" by auto
  then have "u \<in> V" using Suc.IH by blast
  from bfs_invD(7)[OF inv this _ uw] show ?case by simp
qed

lemma bfs_loop_done:
  "bfs_done g frm to st \<Longrightarrow>
     tree_inv g frm (bfs_loop g to st) \<and> (to \<in> dom (bfs_loop g to st) \<or> \<not> reachable g frm to)"
proof (induction g to st rule: bfs_loop.induct)
  case (1 g to prev visited)
  from 1 consider "bfs_inv g frm to [] prev visited" | "to \<in> dom prev" "tree_inv g frm prev"
    by (auto simp: bfs_done_def)
  then show ?case
  proof cases
    case 1
    have "\<not> reachable g frm to"
      using closed_reach[OF 1] bfs_invD(3)[OF 1] unfolding reachable_def by blast
    then show ?thesis using bfs_invD(1)[OF 1] by simp
  next
    case 2
    then show ?thesis by simp
  qed
next
  case (2 g to cur q prev visited)
  from 2(2) have inv: "bfs_inv g frm to (cur # q) prev visited" by (simp add: bfs_done_def)
  have "bfs_done g frm to (scan_edges to cur (graph_get g cur) (q, prev, visited))"
    using inv by (rule scan_edges_inv[where ds="[]"]) simp_all
  from 2(1)[OF this] show ?case by (simp add: bfs_loop.simps(2))
qed

lemma bfs_init: "frm \<noteq> to \<Longrightarrow> bfs_done g frm to ([frm], Map.empty, {frm})"
  by (simp add: bfs_done_def bfs_inv_def tree_inv_def)



section \<open>The reconstruction and the result of the resolver\<close>

lemma reconstruct_ok:
  assumes t: "tree_inv g frm P"
  shows "v = frm \<or> v \<in> dom P \<Longrightarrow> hop_dist g frm v = n \<Longrightarrow>
         \<exists>hs rt'. reconstruct P frm v acc rt = Some (Inr (acc @ hs, rt')) \<and>
           length hs = n \<and> rate_along g hs rt = Some rt' \<and> valid_path g frm (rev hs) v \<and>
           map (\<lambda>(u, c, s). hop_dist g frm c) hs = rev [1..<Suc n]"
proof (induction n arbitrary: v acc rt)
  case 0
  have "v = frm"
  proof (rule ccontr)
    assume "v \<noteq> frm"
    with 0(1) obtain p r s where "P v = Some (p, r, s)" by auto
    with t have "hop_dist g frm v = Suc (hop_dist g frm p)" unfolding tree_inv_def by blast
    with 0(2) show False by simp
  qed
  then have "reconstruct P frm v acc rt = Some (Inr (acc @ [], rt))"
    by (subst reconstruct.simps) simp
  then show ?case using \<open>v = frm\<close> by (intro exI[of _ "[]"] exI[of _ rt]) simp
next
  case (Suc n)
  have neq: "v \<noteq> frm" using Suc.prems(2) by auto
  with Suc.prems(1) obtain p r s where pv: "P v = Some (p, r, s)" by auto
  with t have p: "p = frm \<or> p \<in> dom P" and d: "hop_dist g frm v = Suc (hop_dist g frm p)"
    and f: "find (\<lambda>e. fst e = v) (graph_get g p) = Some (v, r, s)"
    unfolding tree_inv_def by blast+
  from d Suc.prems(2) have dp: "hop_dist g frm p = n" by simp
  from Suc.IH[OF p dp, of "acc @ [(p, v, s)]" "rt * r"]
  obtain hs rt' where
    rec: "reconstruct P frm p (acc @ [(p, v, s)]) (rt * r) = Some (Inr ((acc @ [(p, v, s)]) @ hs, rt'))"
    and len: "length hs = n" and ra: "rate_along g hs (rt * r) = Some rt'"
    and vp: "valid_path g frm (rev hs) p"
    and ds: "map (\<lambda>(u, c, s). hop_dist g frm c) hs = rev [1..<Suc n]"
    by blast
  have "reconstruct P frm v acc rt = reconstruct P frm p (acc @ [(p, v, s)]) (rt * r)"
    by (subst reconstruct.simps) (simp add: neq pv)
  then have 1: "reconstruct P frm v acc rt = Some (Inr (acc @ (p, v, s) # hs, rt'))"
    using rec by simp
  have 2: "rate_along g ((p, v, s) # hs) rt = Some rt'"
    using ra hop_factor_find[OF f] by simp
  have 3: "valid_path g frm (rev ((p, v, s) # hs)) v"
    using valid_path_snoc[OF vp find_edge_labelled[OF f]] by simp
  have 4: "map (\<lambda>(u, c, s). hop_dist g frm c) ((p, v, s) # hs) = rev [1..<Suc (Suc n)]"
    using ds Suc.prems(2) by simp
  show ?case using 1 2 3 4 len by (intro exI[of _ "(p, v, s) # hs"] exI[of _ rt']) simp
qed

lemma distinct_by_dist:
  assumes "map (\<lambda>(u, c, s). hop_dist g frm c) hs = rev [1..<Suc n]"
  shows "distinct (path_nodes frm (rev hs))"
proof -
  let ?t = "\<lambda>(u, c, s). c" and ?d = "hop_dist g frm"
  have m: "map ?d (map ?t hs) = rev [1..<Suc n]"
    using assms by (simp add: case_prod_unfold comp_def)
  then have "distinct (map ?d (map ?t hs))" by simp
  then have d: "distinct (map ?t hs)" by (simp only: distinct_map)
  have "frm \<notin> set (map ?t hs)"
  proof
    assume "frm \<in> set (map ?t hs)"
    then have "?d frm \<in> set (map ?d (map ?t hs))" by (simp only: set_map) (rule imageI)
    then have "?d frm \<in> set (rev [1..<Suc n])" by (simp only: m)
    then show False by (simp del: upt_Suc)
  qed
  with d show ?thesis by (simp add: path_nodes_def rev_map[symmetric])
qed

text \<open>
  The resolver on distinct codes: a shortest path with its rate when the destination is
  reachable, the no-path error otherwise.
\<close>

lemma find_rate_master:
  fixes g :: "'r::{one,times} graph"
  assumes neq: "frm \<noteq> to"
  shows "(reachable g frm to \<longrightarrow>
           (\<exists>hs rt. find_rate g frm to now l = Some (Inr (rt, hs, as_of_or_now l now)) \<and>
              length hs = hop_dist g frm to \<and> valid_path g frm hs to \<and>
              rate_along g (rev hs) 1 = Some rt \<and> distinct (path_nodes frm hs))) \<and>
         (\<not> reachable g frm to \<longrightarrow>
            find_rate g frm to now l = Some (Inl (RuntimeError (no_path_message frm to))))"
proof -
  define P where "P = bfs_loop g to ([frm], Map.empty, {frm})"
  have t: "tree_inv g frm P" and c: "to \<in> dom P \<or> \<not> reachable g frm to"
    using bfs_loop_done[OF bfs_init[OF neq], of g] unfolding P_def by blast+
  have fr: "find_rate g frm to now l =
     (if P to = None then Some (Inl (RuntimeError (no_path_message frm to)))
      else (case reconstruct P frm to [] 1 of
             None \<Rightarrow> None
           | Some (Inl e) \<Rightarrow> Some (Inl e)
           | Some (Inr (path_edges, rate')) \<Rightarrow>
               Some (Inr (rate', rev path_edges, as_of_or_now l now))))"
    using neq by (simp add: find_rate_def P_def Let_def)
  show ?thesis
  proof (cases "reachable g frm to")
    case True
    with c have dom: "to \<in> dom P" by simp
    from reconstruct_ok[OF t, of to "hop_dist g frm to" "[]" 1] dom
    obtain hs rt' where rec: "reconstruct P frm to [] 1 = Some (Inr (hs, rt'))"
      and len: "length hs = hop_dist g frm to" and ra: "rate_along g hs 1 = Some rt'"
      and vp: "valid_path g frm (rev hs) to"
      and ds: "map (\<lambda>(u, c, s). hop_dist g frm c) hs = rev [1..<Suc (hop_dist g frm to)]"
      by auto
    have "find_rate g frm to now l = Some (Inr (rt', rev hs, as_of_or_now l now))"
      using dom rec by (auto simp: fr)
    then show ?thesis using True len ra vp distinct_by_dist[OF ds] by auto
  next
    case False
    have "P to = None"
    proof (rule ccontr)
      assume "P to \<noteq> None"
      then have "to \<in> dom P" by auto
      with t have "reachable g frm to" by (intro tree_inv_reachable) auto
      with False show False by simp
    qed
    then show ?thesis using False by (simp add: fr)
  qed
qed

text \<open>
  \<^verbatim>\<open>_find_rate\<close> returns or raises on every input: the reconstruction loop always ends on the
  \<^verbatim>\<open>prev\<close> the search has built.
\<close>

lemma find_rate_returns:
  fixes g :: "'r::{one,times} graph"
  shows "\<exists>y. find_rate g frm to now l = Some y"
proof (cases "frm = to")
  case True
  then show ?thesis by (simp add: find_rate_def)
next
  case False
  from find_rate_master[OF False, of g now l] show ?thesis by (cases "reachable g frm to") auto
qed

lemma find_rate_value:
  fixes g :: "'r::{one,times} graph"
  assumes "find_rate g frm to now l = Some (Inr (rt, hs, t))"
  shows "valid_path g frm hs to" and "distinct (path_nodes frm hs)"
    and "rate_along g (rev hs) 1 = Some rt" and "t = as_of_or_now l now"
    and "\<And>ps. valid_path g frm ps to \<Longrightarrow> length hs \<le> length ps"
proof -
  have "valid_path g frm hs to \<and> distinct (path_nodes frm hs) \<and>
        rate_along g (rev hs) 1 = Some rt \<and> t = as_of_or_now l now \<and>
        (\<forall>ps. valid_path g frm ps to \<longrightarrow> length hs \<le> length ps)"
  proof (cases "frm = to")
    case True
    with assms show ?thesis by (simp add: find_rate_def path_nodes_def)
  next
    case False
    note m = find_rate_master[OF False, of g now l]
    have r: "reachable g frm to"
    proof (rule ccontr)
      assume "\<not> reachable g frm to"
      with m assms show False by simp
    qed
    with m assms have "length hs = hop_dist g frm to" "valid_path g frm hs to"
      "rate_along g (rev hs) 1 = Some rt" "distinct (path_nodes frm hs)" "t = as_of_or_now l now"
      by auto
    moreover have "length hs \<le> length ps" if "valid_path g frm ps to" for ps
      using dist_le[OF valid_path_relpow[OF that]] \<open>length hs = hop_dist g frm to\<close> by simp
    ultimately show ?thesis by blast
  qed
  then show "valid_path g frm hs to" and "distinct (path_nodes frm hs)"
    and "rate_along g (rev hs) 1 = Some rt" and "t = as_of_or_now l now"
    and "\<And>ps. valid_path g frm ps to \<Longrightarrow> length hs \<le> length ps" by blast+
qed

lemma find_rate_error:
  fixes g :: "'r::{one,times} graph"
  assumes "find_rate g frm to now l = Some (Inl e)"
  shows "frm \<noteq> to" and "e = RuntimeError (no_path_message frm to)"
    and "\<not> (\<exists>ps. valid_path g frm ps to)"
    and "bfs_loop g to ([frm], Map.empty, {frm}) to = None"
proof -
  show neq: "frm \<noteq> to" using assms by (auto simp: find_rate_def)
  note m = find_rate_master[OF neq, of g now l]
  have r: "\<not> reachable g frm to"
  proof
    assume "reachable g frm to"
    with m assms show False by auto
  qed
  with m assms show "e = RuntimeError (no_path_message frm to)" by simp
  from r show "\<not> (\<exists>ps. valid_path g frm ps to)" by (simp add: reachable_iff_path)
  define P where "P = bfs_loop g to ([frm], Map.empty, {frm})"
  have t: "tree_inv g frm P"
    using bfs_loop_done[OF bfs_init[OF neq], of g] unfolding P_def by blast
  show "bfs_loop g to ([frm], Map.empty, {frm}) to = None"
  proof (rule ccontr)
    assume "bfs_loop g to ([frm], Map.empty, {frm}) to \<noteq> None"
    then have "to \<in> dom P" unfolding P_def by auto
    with t have "reachable g frm to" by (intro tree_inv_reachable) auto
    with r show False by simp
  qed
qed

section \<open>The search does not look at the factors\<close>









section \<open>The graph the builder returns\<close>

lemma build_graph_Inr_iff:
  fixes cbr :: "'r::{zero,one,inverse} CbrRates"
  shows "build_graph cbr nbu bnc = Inr g \<longleftrightarrow>
     (eur_rub cbr \<noteq> 0 \<and> usd_rub cbr \<noteq> 0 \<and> eur_uah nbu \<noteq> 0 \<and> usd_uah nbu \<noteq> 0 \<and>
      eur_rub cbr / eur_uah nbu \<noteq> 0 \<and>
      eur_usdt bnc \<noteq> 0 \<and> usdt_uah bnc \<noteq> 0 \<and> usdt_usd bnc \<noteq> 0 \<and>
      g = built_graph (eur_rub cbr) (usd_rub cbr) (eur_uah nbu) (usd_uah nbu)
            (eur_usdt bnc) (usdt_uah bnc) (usdt_usd bnc))"
  by (auto simp: build_graph_def fdiv_def bind_e_def built_graph_def)

lemma build_graph_Inl:
  fixes cbr :: "'r::{zero,one,inverse} CbrRates"
  shows "build_graph cbr nbu bnc = Inl e \<Longrightarrow> e = ZeroDivisionError"
  by (auto simp: build_graph_def fdiv_def bind_e_def split: if_splits)




lemmas eval_find_rate =
  find_rate_def graph_get_def bfs_loop.simps reconstruct.simps as_of_or_now_def

section \<open>The steps of the service\<close>

text \<open>
  The refresh and \<^verbatim>\<open>get_rate\<close> return or raise on every input.
\<close>

lemma refresh_returns:
  fixes up :: "'r::{zero,one,times,inverse} upstream"
  shows "\<exists>y. refresh up now s frm to key = Some y"
proof -
  have "refresh up now s frm to key \<noteq> None"
    using find_rate_returns[where 'r='r]
    apply (simp add: refresh_def fetch_all_def split: sum.splits prod.splits option.splits)
    by (metis option.distinct(1))
  then show ?thesis by auto
qed

lemma get_rate_returns:
  fixes up :: "'r::{zero,one,times,inverse} upstream"
  shows "\<exists>y. get_rate up now s a b = Some y"
  using refresh_returns[of up now s]
  by (simp add: get_rate_def Let_def split: option.splits)

text \<open>The outcomes of the refresh, case by case.\<close>

lemma refresh_cases:
  fixes up :: "'r::{zero,one,times,inverse} upstream"
  assumes "refresh up now s frm to key = Some (r, s', tr)"
  obtains
    (cbr_fails) e where "fetch_cbr up = Inl e" "r = Inl e" "s' = s" "tr = [CBR]"
  | (nbu_fails) e cbr where "fetch_cbr up = Inr cbr" "fetch_nbu up = Inl e"
      "r = Inl e" "s' = s" "tr = [CBR, NBU]"
  | (bnc_fails) e cbr nbu where "fetch_cbr up = Inr cbr" "fetch_nbu up = Inr nbu"
      "fetch_binance up = Inl e" "r = Inl e" "s' = s" "tr = [CBR, NBU, Binance]"
  | (build_fails) e cbr nbu bnc where "fetch_cbr up = Inr cbr" "fetch_nbu up = Inr nbu"
      "fetch_binance up = Inr bnc" "build_graph cbr nbu bnc = Inl e" "r = Inl e"
      "s' = s\<lparr>last_sources_as_of :=
                Some (max (max (cbr_as_of cbr) (nbu_as_of nbu)) (bnc_as_of bnc))\<rparr>"
      "tr = [CBR, NBU, Binance]"
  | (find_fails) e cbr nbu bnc g where "fetch_cbr up = Inr cbr" "fetch_nbu up = Inr nbu"
      "fetch_binance up = Inr bnc" "build_graph cbr nbu bnc = Inr g"
      "find_rate g frm to now
         (Some (max (max (cbr_as_of cbr) (nbu_as_of nbu)) (bnc_as_of bnc))) = Some (Inl e)"
      "r = Inl e"
      "s' = s\<lparr>last_sources_as_of :=
                Some (max (max (cbr_as_of cbr) (nbu_as_of nbu)) (bnc_as_of bnc))\<rparr>"
      "tr = [CBR, NBU, Binance]"
  | (ok) cbr nbu bnc g rt hs t where "fetch_cbr up = Inr cbr" "fetch_nbu up = Inr nbu"
      "fetch_binance up = Inr bnc" "build_graph cbr nbu bnc = Inr g"
      "find_rate g frm to now
         (Some (max (max (cbr_as_of cbr) (nbu_as_of nbu)) (bnc_as_of bnc)))
         = Some (Inr (rt, hs, t))"
      "r = Inr \<lparr>rate = rt, path = hs, as_of = t\<rparr>"
      "s' = s\<lparr>last_sources_as_of :=
                  Some (max (max (cbr_as_of cbr) (nbu_as_of nbu)) (bnc_as_of bnc)),
                cache := (cache s)(key \<mapsto> (now + ttl s, \<lparr>rate = rt, path = hs, as_of = t\<rparr>))\<rparr>"
      "tr = [CBR, NBU, Binance]"
  using assms
  by (auto simp: refresh_def fetch_all_def Let_def split: sum.splits option.splits prod.splits)

lemma get_rate_hit:
  fixes up :: "'r::{zero,one,times,inverse} upstream"
  shows "fresh_entry s (cache_key (upper a) (upper b)) now = Some res \<Longrightarrow>
     get_rate up now s a b = Some (Inr res, s, [])"
  by (simp add: get_rate_def Let_def)

lemma get_rate_miss:
  fixes up :: "'r::{zero,one,times,inverse} upstream"
  shows "fresh_entry s (cache_key (upper a) (upper b)) now = None \<Longrightarrow>
     get_rate up now s a b
       = refresh up now s (upper a) (upper b) (cache_key (upper a) (upper b))"
  by (simp add: get_rate_def Let_def)

lemma fresh_entry_Some_iff:
  "fresh_entry s key now = Some res \<longleftrightarrow> (\<exists>expiry. cache s key = Some (expiry, res) \<and> now < expiry)"
  by (auto simp: fresh_entry_def split: option.splits)

lemma fresh_entry_None_iff:
  "fresh_entry s key now = None \<longleftrightarrow>
     (cache s key = None \<or> (\<exists>expiry res. cache s key = Some (expiry, res) \<and> expiry \<le> now))"
  by (auto simp: fresh_entry_def split: option.splits)

lemmas eval_get_rate =
  get_rate_def refresh_def fetch_all_def fresh_entry_def Let_def build_graph_def fdiv_def
  bind_e_def upper_def upper_char_def cache_key_def init_service_def

lemma scenario_usd_eur:
  "get_rate scenario_up 1000 (init_service 600) ''usd'' ''eur''
     = Some (Inr usd_eur_result, usd_eur_service, [CBR, NBU, Binance])"
  by (simp add: eval_get_rate eval_find_rate usd_eur_result_def usd_eur_service_def
      scenario_up_def scenario_cbr_def scenario_nbu_def scenario_bnc_def)

lemma get_rate_ok_entry:
  fixes up :: "'r::{zero,one,times,inverse} upstream"
  assumes "get_rate up now s a b = Some (Inr res, s', tr)"
  shows "\<exists>expiry. cache s' (cache_key (upper a) (upper b)) = Some (expiry, res) \<and>
     (fresh_entry s (cache_key (upper a) (upper b)) now = None \<longrightarrow>
        expiry = now + ttl s \<and> tr = [CBR, NBU, Binance])"
proof (cases "fresh_entry s (cache_key (upper a) (upper b)) now")
  case None
  from assms have "refresh up now s (upper a) (upper b) (cache_key (upper a) (upper b))
      = Some (Inr res, s', tr)"
    by (simp add: get_rate_miss[OF None])
  then show ?thesis by (cases rule: refresh_cases) simp_all
next
  case (Some r)
  from assms have "res = r" "s' = s" by (simp_all add: get_rate_hit[OF Some])
  moreover from Some obtain expiry where "cache s (cache_key (upper a) (upper b)) = Some (expiry, r)"
    unfolding fresh_entry_Some_iff by blast
  ultimately show ?thesis using Some by simp
qed

section \<open>The properties\<close>

text \<open>
  Claim C1 (amended). For every code \<open>X\<close> (after case normalization), \<^verbatim>\<open>_find_rate\<close> returns
  the rate 1 and an empty path for the pair \<open>(X, X)\<close> without searching the graph. \<^verbatim>\<open>get_rate(X, X)\<close>
  returns the stored result with no provider fetch when the cache holds a fresh entry for the
  pair; otherwise it runs the refresh, which calls the CBR fetcher at least, and when it
  returns a result, all three fetchers were called and the result has rate 1 and an empty path.
\<close>

theorem C1_identity:
  fixes up :: "'r::{zero,one,times,inverse} upstream" and g :: "'r graph"
  shows "find_rate g (upper x) (upper x) now l = Some (Inr (1, [], as_of_or_now l now)) \<and>
     (case fresh_entry s (cache_key (upper x) (upper x)) now of
        Some res \<Rightarrow> get_rate up now s x x = Some (Inr res, s, [])
      | None \<Rightarrow>
          (\<exists>r s' tr. get_rate up now s x x = Some (r, s', tr) \<and> CBR \<in> set tr) \<and>
          (\<forall>res s' tr. get_rate up now s x x = Some (Inr res, s', tr) \<longrightarrow>
             rate res = 1 \<and> path res = [] \<and> tr = [CBR, NBU, Binance]))"
proof -
  let ?key = "cache_key (upper x) (upper x)"
  have a: "find_rate g (upper x) (upper x) now l = Some (Inr (1, [], as_of_or_now l now))"
    by (simp add: find_rate_def)
  have b: "get_rate up now s x x = Some (Inr res, s, [])"
    if "fresh_entry s ?key now = Some res" for res
    using that by (rule get_rate_hit)
  have c: "\<exists>r s' tr. get_rate up now s x x = Some (r, s', tr) \<and> CBR \<in> set tr"
    if miss: "fresh_entry s ?key now = None"
  proof -
    obtain r s' tr where y: "refresh up now s (upper x) (upper x) ?key = Some (r, s', tr)"
      using refresh_returns[of up now s "upper x" "upper x" ?key] by auto
    then have "CBR \<in> set tr" by (cases rule: refresh_cases) simp_all
    with y show ?thesis by (simp add: get_rate_miss[OF miss])
  qed
  have d: "rate res = 1 \<and> path res = [] \<and> tr = [CBR, NBU, Binance]"
    if miss: "fresh_entry s ?key now = None"
      and ok: "get_rate up now s x x = Some (Inr res, s', tr)" for res s' tr
  proof -
    from ok have "refresh up now s (upper x) (upper x) ?key = Some (Inr res, s', tr)"
      by (simp add: get_rate_miss[OF miss])
    then show ?thesis by (cases rule: refresh_cases) (auto simp: find_rate_def)
  qed
  show ?thesis using a b c d by (auto split: option.splits)
qed

theorem C1_identity_witness:
  "fresh_entry (init_service 600 :: real RateService) (cache_key (upper ''usd'') (upper ''usd'')) 0
     = None \<and>
   get_rate scenario_up 0 (init_service 600) ''usd'' ''usd''
     = Some (Inr (identity_result 7),
             \<lparr>ttl = 600, cache = [''USD->USD'' \<mapsto> (600, identity_result 7)],
              last_sources_as_of = Some 7\<rparr>,
             [CBR, NBU, Binance]) \<and>
   find_rate ([] :: real graph) (upper ''usd'') (upper ''usd'') 0 None = Some (Inr (1, [], 0)) \<and>
   rate (identity_result 7) = 1 \<and> path (identity_result 7) = []"
proof -
  have m: "fresh_entry (init_service 600 :: real RateService)
             (cache_key (upper ''usd'') (upper ''usd'')) 0 = None"
    by (simp add: fresh_entry_def init_service_def)
  have g: "get_rate scenario_up 0 (init_service 600) ''usd'' ''usd''
     = Some (Inr (identity_result 7),
             \<lparr>ttl = 600, cache = [''USD->USD'' \<mapsto> (600, identity_result 7)],
              last_sources_as_of = Some 7\<rparr>,
             [CBR, NBU, Binance])"
    by (simp add: eval_get_rate eval_find_rate identity_result_def
        scenario_up_def scenario_cbr_def scenario_nbu_def scenario_bnc_def)
  from C1_identity[where g="[] :: real graph" and x="''usd''" and now=0 and l=None
      and s="init_service 600" and up=scenario_up] m g
  show ?thesis by (simp add: as_of_or_now_def)
qed

text \<open>
  The claim as stated fails: on an empty cache \<^verbatim>\<open>get_rate("USD", "USD")\<close> calls the three
  fetchers.
\<close>

theorem C1_identity_fetches_counterexample:
  "\<exists>res s'. get_rate scenario_up 0 (init_service 600) ''USD'' ''USD''
               = Some (Inr res, s', [CBR, NBU, Binance])"
  by (simp add: eval_get_rate eval_find_rate
      scenario_up_def scenario_cbr_def scenario_nbu_def scenario_bnc_def)

text \<open>
  Claim C2 (amended). On the snapshots of the scenario (CBR: EUR/RUB 100, USD/RUB 90; NBU:
  EUR/UAH 45, USD/UAH 40; Binance: EUR/USDT 1.1, USDT/UAH 41, USDT/USD 1), in exact arithmetic,
  USD to EUR resolves to the rate 0.9 over the two CBR hops USD to RUB and RUB to EUR (the
  graph has no edge between USD and EUR), and UAH to RUB resolves to 100/45 over the single
  derived edge labelled CBR+NBU.
\<close>

theorem C2_scenario:
  "\<exists>g. build_graph (scenario_cbr t1) (scenario_nbu t2) (scenario_bnc t3) = Inr g \<and>
     find_rate g ''USD'' ''EUR'' now l
       = Some (Inr (9 / 10, [(''USD'', ''RUB'', ''CBR''), (''RUB'', ''EUR'', ''CBR'')],
                    as_of_or_now l now)) \<and>
     find_rate g ''UAH'' ''RUB'' now l
       = Some (Inr (100 / 45, [(''UAH'', ''RUB'', ''CBR+NBU'')], as_of_or_now l now))"
  by (simp add: build_graph_Inr_iff scenario_cbr_def scenario_nbu_def scenario_bnc_def
      built_graph_def find_rate_def graph_get_def bfs_loop.simps reconstruct.simps)

text \<open>
  The claim as stated fails: on the scenario no single hop is returned for USD to EUR.
\<close>

theorem C2_single_hop_counterexample:
  "\<not> (\<exists>g r h t. build_graph (scenario_cbr 0) (scenario_nbu 0) (scenario_bnc 0) = Inr g \<and>
         find_rate g ''USD'' ''EUR'' 0 None = Some (Inr (r, [h], t)))"
  by (simp add: build_graph_Inr_iff scenario_cbr_def scenario_nbu_def scenario_bnc_def
      built_graph_def eval_find_rate)





text \<open>
  Claim C5. After a call of \<^verbatim>\<open>get_rate(A, B)\<close> that returned a result, the cache holds that
  result under the key of the pair, with the expiry \<open>now + ttl\<close> when the call went through the
  refresh. A second call at an instant strictly before the expiry returns exactly that result,
  leaves the service as it is and calls no fetcher. A second call at or after the expiry finds
  no fresh entry and runs the refresh: the fetchers are called in the order CBR, NBU, Binance,
  all three unless the CBR or the NBU fetch raises and ends the refresh.
\<close>

theorem C5_cache_ttl:
  fixes up up' :: "'r::{zero,one,times,inverse} upstream"
  assumes "get_rate up now s a b = Some (Inr res, s', tr)"
  shows "\<exists>expiry. cache s' (cache_key (upper a) (upper b)) = Some (expiry, res) \<and>
     (fresh_entry s (cache_key (upper a) (upper b)) now = None \<longrightarrow>
        expiry = now + ttl s \<and> tr = [CBR, NBU, Binance]) \<and>
     (now' < expiry \<longrightarrow> get_rate up' now' s' a b = Some (Inr res, s', [])) \<and>
     (expiry \<le> now' \<longrightarrow>
        fresh_entry s' (cache_key (upper a) (upper b)) now' = None \<and>
        (\<exists>r s'' tr'.
           get_rate up' now' s' a b = Some (r, s'', tr') \<and>
           refresh up' now' s' (upper a) (upper b) (cache_key (upper a) (upper b))
             = Some (r, s'', tr') \<and>
           tr' = snd (snd (fetch_all up' s')) \<and> take 1 tr' = [CBR] \<and>
           ((\<exists>cbr nbu. fetch_cbr up' = Inr cbr \<and> fetch_nbu up' = Inr nbu)
              \<longrightarrow> tr' = [CBR, NBU, Binance])))"
proof -
  let ?key = "cache_key (upper a) (upper b)"
  from get_rate_ok_entry[OF assms] obtain expiry where
    e: "cache s' ?key = Some (expiry, res)"
    and m: "fresh_entry s ?key now = None \<longrightarrow> expiry = now + ttl s \<and> tr = [CBR, NBU, Binance]"
    by (elim exE conjE)
  have hit: "get_rate up' now' s' a b = Some (Inr res, s', [])" if "now' < expiry"
  proof -
    from that e have "fresh_entry s' ?key now' = Some res" by (simp add: fresh_entry_def)
    then show ?thesis by (rule get_rate_hit)
  qed
  have stale: "fresh_entry s' ?key now' = None \<and>
        (\<exists>r s'' tr'.
           get_rate up' now' s' a b = Some (r, s'', tr') \<and>
           refresh up' now' s' (upper a) (upper b) ?key = Some (r, s'', tr') \<and>
           tr' = snd (snd (fetch_all up' s')) \<and> take 1 tr' = [CBR] \<and>
           ((\<exists>cbr nbu. fetch_cbr up' = Inr cbr \<and> fetch_nbu up' = Inr nbu)
              \<longrightarrow> tr' = [CBR, NBU, Binance]))"
    if "expiry \<le> now'"
  proof -
    from that e have f: "fresh_entry s' ?key now' = None" by (simp add: fresh_entry_def)
    obtain r s'' tr' where y: "refresh up' now' s' (upper a) (upper b) ?key = Some (r, s'', tr')"
      using refresh_returns[of up' now' s' "upper a" "upper b" ?key] by auto
    from y have t: "tr' = snd (snd (fetch_all up' s')) \<and> take 1 tr' = [CBR] \<and>
           ((\<exists>cbr nbu. fetch_cbr up' = Inr cbr \<and> fetch_nbu up' = Inr nbu)
              \<longrightarrow> tr' = [CBR, NBU, Binance])"
      by (cases rule: refresh_cases) (simp_all add: fetch_all_def)
    have "get_rate up' now' s' a b = Some (r, s'', tr')"
      using y by (simp only: get_rate_miss[OF f])
    with y f t show ?thesis by blast
  qed
  from e m hit stale show ?thesis by (intro exI[of _ expiry] conjI impI) auto
qed

theorem C5_cache_ttl_witness:
  "get_rate scenario_up 1000 (init_service 600) ''usd'' ''eur''
     = Some (Inr usd_eur_result, usd_eur_service, [CBR, NBU, Binance]) \<and>
   fresh_entry (init_service 600 :: real RateService) (cache_key (upper ''usd'') (upper ''eur'')) 1000
     = None \<and>
   cache usd_eur_service (cache_key (upper ''usd'') (upper ''eur'')) = Some (1000 + 600, usd_eur_result) \<and>
   get_rate failing_up 1599 usd_eur_service ''usd'' ''eur'' = Some (Inr usd_eur_result, usd_eur_service, []) \<and>
   get_rate failing_up 1600 usd_eur_service ''usd'' ''eur''
     = Some (Inl (ProviderError ''NBU: currency not found: EUR''), usd_eur_service, [CBR, NBU]) \<and>
   (\<exists>s''. get_rate scenario_up 1600 usd_eur_service ''usd'' ''eur''
     = Some (Inr usd_eur_result, s'', [CBR, NBU, Binance]))"
proof -
  note first = scenario_usd_eur
  have m: "fresh_entry (init_service 600 :: real RateService)
      (cache_key (upper ''usd'') (upper ''eur'')) 1000 = None"
    by (simp add: fresh_entry_def init_service_def)
  have c: "cache usd_eur_service (cache_key (upper ''usd'') (upper ''eur''))
      = Some (1000 + 600, usd_eur_result)"
    by (simp add: usd_eur_service_def cache_key_def upper_def upper_char_def)
  have st: "get_rate failing_up 1600 usd_eur_service ''usd'' ''eur''
     = Some (Inl (ProviderError ''NBU: currency not found: EUR''), usd_eur_service, [CBR, NBU])"
    by (simp add: eval_get_rate usd_eur_service_def failing_up_def)
  have st2: "\<exists>s''. get_rate scenario_up 1600 usd_eur_service ''usd'' ''eur''
     = Some (Inr usd_eur_result, s'', [CBR, NBU, Binance])"
    by (simp add: eval_get_rate eval_find_rate usd_eur_service_def usd_eur_result_def
        scenario_up_def scenario_cbr_def scenario_nbu_def scenario_bnc_def)
  from C5_cache_ttl[OF first, where up'=failing_up and now'=1599] c
  have h: "get_rate failing_up 1599 usd_eur_service ''usd'' ''eur''
      = Some (Inr usd_eur_result, usd_eur_service, [])" by auto
  with first m c st st2 show ?thesis by simp
qed

text \<open>
  Claim C6. Whenever \<^verbatim>\<open>get_rate\<close> ends with an exception, the cache afterwards is the cache
  before the call (and the call was a refresh, not a cache hit). On a cache miss every failure
  of the refresh reaches the caller: the exception of the first fetcher that raises, a
  \<^verbatim>\<open>ZeroDivisionError\<close> of the graph builder, or the no-path error of the resolver.
\<close>

theorem C6_failure_leaves_cache:
  fixes up :: "'r::{zero,one,times,inverse} upstream"
  shows "(\<forall>e s' tr. get_rate up now s a b = Some (Inl e, s', tr) \<longrightarrow>
        cache s' = cache s \<and> ttl s' = ttl s \<and>
        fresh_entry s (cache_key (upper a) (upper b)) now = None) \<and>
     (fresh_entry s (cache_key (upper a) (upper b)) now = None \<longrightarrow>
        (\<forall>e. fetch_cbr up = Inl e \<longrightarrow> get_rate up now s a b = Some (Inl e, s, [CBR])) \<and>
        (\<forall>e cbr. fetch_cbr up = Inr cbr \<and> fetch_nbu up = Inl e \<longrightarrow>
           get_rate up now s a b = Some (Inl e, s, [CBR, NBU])) \<and>
        (\<forall>e cbr nbu. fetch_cbr up = Inr cbr \<and> fetch_nbu up = Inr nbu \<and> fetch_binance up = Inl e \<longrightarrow>
           get_rate up now s a b = Some (Inl e, s, [CBR, NBU, Binance])) \<and>
        (\<forall>e cbr nbu bnc g.
           fetch_cbr up = Inr cbr \<and> fetch_nbu up = Inr nbu \<and> fetch_binance up = Inr bnc \<and>
           (build_graph cbr nbu bnc = Inl e \<or>
            build_graph cbr nbu bnc = Inr g \<and>
            find_rate g (upper a) (upper b) now
              (Some (max (max (cbr_as_of cbr) (nbu_as_of nbu)) (bnc_as_of bnc))) = Some (Inl e)) \<longrightarrow>
           (\<exists>s'. get_rate up now s a b = Some (Inl e, s', [CBR, NBU, Binance]) \<and>
                 cache s' = cache s)))"
proof -
  let ?key = "cache_key (upper a) (upper b)"
  have 1: "cache s' = cache s \<and> ttl s' = ttl s \<and> fresh_entry s ?key now = None"
    if g: "get_rate up now s a b = Some (Inl e, s', tr)" for e s' tr
  proof (cases "fresh_entry s ?key now")
    case None
    from g have "refresh up now s (upper a) (upper b) ?key = Some (Inl e, s', tr)"
      by (simp add: get_rate_miss[OF None])
    then show ?thesis using None by (cases rule: refresh_cases) simp_all
  next
    case (Some r)
    with g show ?thesis by (simp add: get_rate_hit[OF Some])
  qed
  have 2: "get_rate up now s a b = Some (Inl e, s, [CBR])"
    if "fresh_entry s ?key now = None" "fetch_cbr up = Inl e" for e
    using that by (simp add: get_rate_miss refresh_def fetch_all_def)
  have 3: "get_rate up now s a b = Some (Inl e, s, [CBR, NBU])"
    if "fresh_entry s ?key now = None" "fetch_cbr up = Inr cbr" "fetch_nbu up = Inl e" for e cbr
    using that by (simp add: get_rate_miss refresh_def fetch_all_def)
  have 4: "get_rate up now s a b = Some (Inl e, s, [CBR, NBU, Binance])"
    if "fresh_entry s ?key now = None" "fetch_cbr up = Inr cbr" "fetch_nbu up = Inr nbu"
      "fetch_binance up = Inl e" for e cbr nbu
    using that by (simp add: get_rate_miss refresh_def fetch_all_def)
  have 5: "\<exists>s'. get_rate up now s a b = Some (Inl e, s', [CBR, NBU, Binance]) \<and> cache s' = cache s"
    if "fresh_entry s ?key now = None" "fetch_cbr up = Inr cbr" "fetch_nbu up = Inr nbu"
      "fetch_binance up = Inr bnc"
      "build_graph cbr nbu bnc = Inl e \<or>
       build_graph cbr nbu bnc = Inr g \<and>
       find_rate g (upper a) (upper b) now
         (Some (max (max (cbr_as_of cbr) (nbu_as_of nbu)) (bnc_as_of bnc))) = Some (Inl e)"
    for e cbr nbu bnc g
    using that by (auto simp: get_rate_miss refresh_def fetch_all_def)
  show ?thesis
    apply (intro conjI allI impI)
    subgoal for e s' tr using 1[of e s' tr] by blast
    subgoal for e s' tr using 1[of e s' tr] by blast
    subgoal for e s' tr using 1[of e s' tr] by blast
    subgoal for e using 2[of e] by blast
    subgoal for e cbr using 3[of cbr e] by blast
    subgoal for e cbr nbu using 4[of cbr nbu e] by blast
    subgoal for e cbr nbu bnc g using 5[of cbr nbu bnc e g] by blast
    done
qed

theorem C6_failure_leaves_cache_witness:
  "fresh_entry usd_eur_service (cache_key (upper ''uah'') (upper ''rub'')) 1000 = None \<and>
   fetch_cbr failing_up = Inr (scenario_cbr 5) \<and>
   fetch_nbu failing_up = Inl (ProviderError ''NBU: currency not found: EUR'') \<and>
   get_rate failing_up 1000 usd_eur_service ''uah'' ''rub''
     = Some (Inl (ProviderError ''NBU: currency not found: EUR''), usd_eur_service, [CBR, NBU]) \<and>
   cache usd_eur_service ''USD->EUR'' = Some (1600, usd_eur_result) \<and>
   cache usd_eur_service ''UAH->RUB'' = None"
proof -
  have m: "fresh_entry usd_eur_service (cache_key (upper ''uah'') (upper ''rub'')) 1000 = None"
    by (simp add: fresh_entry_def usd_eur_service_def cache_key_def upper_def upper_char_def)
  have c: "fetch_cbr failing_up = Inr (scenario_cbr 5)"
    and n: "fetch_nbu failing_up = Inl (ProviderError ''NBU: currency not found: EUR'')"
    by (simp_all add: failing_up_def)
  have k: "cache usd_eur_service ''USD->EUR'' = Some (1600, usd_eur_result)"
    "cache usd_eur_service ''UAH->RUB'' = None"
    by (simp_all add: usd_eur_service_def)
  from C6_failure_leaves_cache[where up=failing_up and now=1000 and s=usd_eur_service
      and a="''uah''" and b="''rub''"] m c n
  have "get_rate failing_up 1000 usd_eur_service ''uah'' ''rub''
     = Some (Inl (ProviderError ''NBU: currency not found: EUR''), usd_eur_service, [CBR, NBU])"
    by blast
  with m c n k show ?thesis by simp
qed

text \<open>
  Claim C7. For distinct source and destination codes: when the search ends without an entry
  for the destination in \<^verbatim>\<open>prev\<close>, \<^verbatim>\<open>_find_rate\<close> raises the \<^verbatim>\<open>RuntimeError\<close> whose
  message names the source and the destination, and the graph has indeed no path between
  them; a rate is returned only together with a path of the graph that yields it.
\<close>

theorem C7_no_path_error:
  fixes g :: "'r::{one,times} graph"
  assumes "frm \<noteq> to"
  shows "if bfs_loop g to ([frm], Map.empty, {frm}) to = None
         then find_rate g frm to now l
                = Some (Inl (RuntimeError (''No conversion path from '' @ frm @ '' to '' @ to))) \<and>
              \<not> (\<exists>ps. valid_path g frm ps to)
         else \<exists>rt hs t. find_rate g frm to now l = Some (Inr (rt, hs, t)) \<and>
                valid_path g frm hs to \<and> rate_along g (rev hs) 1 = Some rt"
proof (cases "bfs_loop g to ([frm], Map.empty, {frm}) to = None")
  case True
  then have fr: "find_rate g frm to now l = Some (Inl (RuntimeError (no_path_message frm to)))"
    using assms by (simp add: find_rate_def)
  from find_rate_error(3)[OF fr] fr True show ?thesis by (simp add: no_path_message_def)
next
  case False
  obtain y where y: "find_rate g frm to now l = Some y" using find_rate_returns by blast
  show ?thesis
  proof (cases y)
    case (Inl e)
    with y find_rate_error(4)[of g frm to now l e] False show ?thesis by simp
  next
    case (Inr v)
    obtain rt hs t where "v = (rt, hs, t)" by (cases v)
    with y Inr have fr: "find_rate g frm to now l = Some (Inr (rt, hs, t))" by simp
    from find_rate_value(1,3)[OF fr] fr False show ?thesis by auto
  qed
qed

theorem C7_no_path_error_witness:
  "''B'' \<noteq> ''C'' \<and>
   bfs_loop gap_graph ''C'' ([''B''], Map.empty, {''B''}) ''C'' = None \<and>
   find_rate gap_graph ''B'' ''C'' 0 None
     = Some (Inl (RuntimeError ''No conversion path from B to C'')) \<and>
   \<not> (\<exists>ps. valid_path gap_graph ''B'' ps ''C'')"
proof -
  have n: "''B'' \<noteq> ''C''" by simp
  have b: "bfs_loop gap_graph ''C'' ([''B''], Map.empty, {''B''}) ''C'' = None"
    by (simp add: gap_graph_def graph_get_def bfs_loop.simps)
  from C7_no_path_error[OF n, of gap_graph 0 None] n b show ?thesis by simp
qed



text \<open>
  Claim C9. Every result that \<^verbatim>\<open>get_rate\<close> returns from a refresh carries as \<open>as_of\<close> the latest
  of the three snapshot timestamps of that refresh; its path is a path of the graph built from
  these snapshots, and its rate is the product of the factors of the hops of that path,
  multiplied onto 1 from the last hop back to the first as the reconstruction loop does (rate
  1 and the empty path for equal codes). \<^verbatim>\<open>_find_rate\<close> called while no snapshot timestamp is
  recorded returns the current time of the call as \<open>as_of\<close>.
\<close>

theorem C9_as_of_and_rate:
  fixes up :: "'r::{zero,one,times,inverse} upstream"
  assumes "fresh_entry s (cache_key (upper a) (upper b)) now = None"
    and "get_rate up now s a b = Some (Inr res, s', tr)"
  shows "\<exists>cbr nbu bnc g.
     fetch_cbr up = Inr cbr \<and> fetch_nbu up = Inr nbu \<and> fetch_binance up = Inr bnc \<and>
     build_graph cbr nbu bnc = Inr g \<and>
     as_of res = max (max (cbr_as_of cbr) (nbu_as_of nbu)) (bnc_as_of bnc) \<and>
     valid_path g (upper a) (path res) (upper b) \<and>
     rate_along g (rev (path res)) 1 = Some (rate res) \<and>
     (upper a = upper b \<longrightarrow> rate res = 1 \<and> path res = []) \<and>
     (\<forall>(g' :: 'r graph) x y r p t.
        find_rate g' x y now None = Some (Inr (r, p, t)) \<longrightarrow> t = now)"
proof -
  let ?key = "cache_key (upper a) (upper b)"
  from assms have "refresh up now s (upper a) (upper b) ?key = Some (Inr res, s', tr)"
    by (simp add: get_rate_miss)
  then show ?thesis
  proof (cases rule: refresh_cases)
    case (ok cbr nbu bnc g rt hs t)
    note v = find_rate_value[OF ok(5)]
    have res: "rate res = rt" "path res = hs" "as_of res = t" using ok(6) by simp_all
    have "t = max (max (cbr_as_of cbr) (nbu_as_of nbu)) (bnc_as_of bnc)"
      using v(4) by (simp add: as_of_or_now_def)
    moreover have "upper a = upper b \<longrightarrow> rt = 1 \<and> hs = []"
      using ok(5) by (auto simp: find_rate_def)
    moreover have "\<forall>(g' :: 'r graph) x y r p t.
        find_rate g' x y now None = Some (Inr (r, p, t)) \<longrightarrow> t = now"
      using find_rate_value(4) by (fastforce simp: as_of_or_now_def)
    ultimately show ?thesis using ok(1-4) v(1) v(3) res by auto
  qed simp_all
qed

theorem C9_as_of_and_rate_witness:
  "fresh_entry (init_service 600 :: real RateService) (cache_key (upper ''usd'') (upper ''eur'')) 1000
     = None \<and>
   get_rate scenario_up 1000 (init_service 600) ''usd'' ''eur''
     = Some (Inr usd_eur_result, usd_eur_service, [CBR, NBU, Binance]) \<and>
   as_of usd_eur_result = max (max 5 7) 6 \<and>
   rate_along (built_graph 100 90 45 40 (11 / 10) 41 1) (rev (path usd_eur_result)) 1
     = Some (rate usd_eur_result) \<and>
   rate usd_eur_result = (1 * (1 / 100)) * 90 \<and>
   find_rate tie_graph ''A'' ''D'' 1000 None
     = Some (Inr (6, [(''A'', ''B'', ''x''), (''B'', ''D'', ''x'')], 1000))"
proof -
  have m: "fresh_entry (init_service 600 :: real RateService)
      (cache_key (upper ''usd'') (upper ''eur'')) 1000 = None"
    by (simp add: fresh_entry_def init_service_def)
  have r: "rate_along (built_graph 100 90 45 40 (11 / 10) 41 1) (rev (path usd_eur_result)) 1
     = Some (rate usd_eur_result)"
    by (simp add: built_graph_def usd_eur_result_def graph_get_def)
  have f: "find_rate tie_graph ''A'' ''D'' 1000 None
     = Some (Inr (6, [(''A'', ''B'', ''x''), (''B'', ''D'', ''x'')], 1000))"
    by (simp add: tie_graph_def eval_find_rate)
  from C9_as_of_and_rate[OF m scenario_usd_eur] m scenario_usd_eur r f
  show ?thesis by (simp add: usd_eur_result_def)
qed



end
